theory Spec2Isabelle
  imports Main
begin

section \<open>The measurement converter of \<^verbatim>\<open>src/main.py\<close>\<close>

text \<open>
  The class \<^verbatim>\<open>MeasurementConverter\<close> has no fields, so its three methods are
  modelled as functions of their arguments. A Python \<^verbatim>\<open>str\<close> is modelled as a
  \<^typ>\<open>string\<close>, one \<^typ>\<open>char\<close> for each code point below 256; \<^verbatim>\<open>ord\<close> is
  \<^term>\<open>of_char\<close>. Python integers are unbounded, so element values, counts and sums
  are of type \<^typ>\<open>int\<close>. The cursor \<^verbatim>\<open>i\<close> starts at 0 and is only ever
  incremented, so it is a \<^typ>\<open>nat\<close>; every read \<^verbatim>\<open>s[i]\<close> of the source is
  guarded by \<^verbatim>\<open>i < len(s)\<close>, so no read is out of range.
\<close>

subsection \<open>\<^verbatim>\<open>_val\<close>\<close>

text \<open>
  \<^verbatim>\<open>
  def _val(self, ch):
      if ch == "_":
          return 0
      return ord(ch) - ord('a') + 1
  \<close>
\<close>

definition val :: "char \<Rightarrow> int" where
  "val ch = (if ch = CHR ''_'' then 0
             else int (of_char ch) - int (of_char CHR ''a'') + 1)"

subsection \<open>\<^verbatim>\<open>_parse_element\<close>\<close>

text \<open>
  The loop \<^verbatim>\<open>while i < len(s) and s[i] == 'z': total += 26; i += 1\<close>,
  as a function of the cursor and the running total (\<^verbatim>\<open>total\<close> in the source,
  \<open>tot\<close> here because \<^const>\<open>total\<close> is a constant of HOL).
\<close>

function z_loop :: "string \<Rightarrow> nat \<Rightarrow> int \<Rightarrow> int \<times> nat" where
  "z_loop s i tot =
     (if i < length s \<and> s ! i = CHR ''z'' then z_loop s (i + 1) (tot + 26)
      else (tot, i))"
  by pat_completeness auto
termination
  by (relation "measure (\<lambda>(s, i, tot). length s - i)") auto

definition parse_element :: "string \<Rightarrow> nat \<Rightarrow> int \<times> nat" where
  "parse_element s i =
     (if i \<ge> length s then (0, i)
      else if s ! i \<noteq> CHR ''z'' then (val (s ! i), i + 1)
      else (case z_loop s i 0 of
              (tot, j) \<Rightarrow>
                if j < length s then (tot + val (s ! j), j + 1) else (tot, j)))"

subsection \<open>\<^verbatim>\<open>convert\<close>\<close>

text \<open>
  The inner loop
  \<^verbatim>\<open>while read < count and i < n: val, i = self._parse_element(s, i); package_sum += val; read += 1\<close>
  returns the sum and the cursor.
\<close>

function value_loop :: "string \<Rightarrow> int \<Rightarrow> int \<Rightarrow> nat \<Rightarrow> int \<Rightarrow> int \<times> nat" where
  "value_loop s count read i package_sum =
     (if read < count \<and> i < length s
      then (case parse_element s i of
              (v, i') \<Rightarrow> value_loop s count (read + 1) i' (package_sum + v))
      else (package_sum, i))"
  by pat_completeness auto
termination
  by (relation "measure (\<lambda>(s, count, read, i, package_sum). nat (count - read))") auto

subsection \<open>The cursor only moves forward, and not past the end\<close>

declare z_loop.simps [simp del] value_loop.simps [simp del]

lemma z_loop_ge: "i \<le> snd (z_loop s i t)"
proof (induction s i t rule: z_loop.induct)
  case (1 s i tot)
  show ?case
  proof (cases "i < length s \<and> s ! i = CHR ''z''")
    case True
    with 1 have "i + 1 \<le> snd (z_loop s (i + 1) (tot + 26))" by simp
    with True show ?thesis by (subst z_loop.simps) simp
  next
    case False
    then show ?thesis by (subst z_loop.simps) auto
  qed
qed

lemma z_loop_le: "i \<le> length s \<Longrightarrow> snd (z_loop s i t) \<le> length s"
proof (induction s i t rule: z_loop.induct)
  case (1 s i tot)
  show ?case
  proof (cases "i < length s \<and> s ! i = CHR ''z''")
    case True
    with 1 have "snd (z_loop s (i + 1) (tot + 26)) \<le> length s" by simp
    with True show ?thesis by (subst z_loop.simps) simp
  next
    case False
    with 1 show ?thesis by (subst z_loop.simps) auto
  qed
qed

lemma parse_element_advances: "i < length s \<Longrightarrow> i < snd (parse_element s i)"
  using z_loop_ge [of i s 0]
  by (auto simp: parse_element_def split: prod.splits)

lemma parse_element_ge: "i \<le> snd (parse_element s i)"
  using z_loop_ge [of i s 0]
  by (auto simp: parse_element_def split: prod.splits)

lemma parse_element_le: "i \<le> length s \<Longrightarrow> snd (parse_element s i) \<le> length s"
  using z_loop_le [of i s 0]
  by (auto simp: parse_element_def split: prod.splits)

lemma value_loop_ge: "i \<le> snd (value_loop s c r i p)"
proof (induction s c r i p rule: value_loop.induct)
  case (1 s count read i package_sum)
  show ?case
  proof (cases "read < count \<and> i < length s")
    case True
    obtain v i' where pe: "parse_element s i = (v, i')" by (cases "parse_element s i")
    with 1 True have "i' \<le> snd (value_loop s count (read + 1) i' (package_sum + v))" by simp
    moreover have "i \<le> i'" using parse_element_ge [of i s] pe by simp
    ultimately show ?thesis using True pe by (subst value_loop.simps) simp
  next
    case False
    then show ?thesis by (subst value_loop.simps) auto
  qed
qed

lemma value_loop_le: "i \<le> length s \<Longrightarrow> snd (value_loop s c r i p) \<le> length s"
proof (induction s c r i p rule: value_loop.induct)
  case (1 s count read i package_sum)
  show ?case
  proof (cases "read < count \<and> i < length s")
    case True
    obtain v i' where pe: "parse_element s i = (v, i')" by (cases "parse_element s i")
    have "i' \<le> length s" using parse_element_le [of i s] pe 1(2) by simp
    with 1 True pe have "snd (value_loop s count (read + 1) i' (package_sum + v)) \<le> length s" by simp
    then show ?thesis using True pe by (subst value_loop.simps) simp
  next
    case False
    with 1 show ?thesis by (subst value_loop.simps) auto
  qed
qed

lemma count_read_decreases:
  "i < length s \<Longrightarrow> (c, j) = parse_element s i \<Longrightarrow> length s - j < length s - i"
  using parse_element_advances [of i s] by (cases "parse_element s i") auto

lemma package_read_decreases:
  "i < length s \<Longrightarrow> (c, j) = parse_element s i \<Longrightarrow> (p, k) = value_loop s c r j q
     \<Longrightarrow> length s - k < length s - i"
  using parse_element_advances [of i s] value_loop_ge [of j s c r q]
  by (cases "parse_element s i"; cases "value_loop s c r j q") auto

text \<open>
  The main loop of \<^verbatim>\<open>convert\<close>. The source binds \<^verbatim>\<open>n = len(s)\<close> once and never
  rebinds \<^verbatim>\<open>s\<close>, so \<open>n\<close> is \<^term>\<open>length s\<close> throughout. The function returns the
  list \<^verbatim>\<open>result\<close> together with the cursor at which the loop was left.
  \<^verbatim>\<open>
  while i < n:
      if s[i] == "_":
          result.append(0); i += 1; continue
      count, i = self._parse_element(s, i)
      if count == 0:
          result.append(0); continue
      package_sum = 0; read = 0
      while read < count and i < n: ...
      result.append(package_sum)
  return result
  \<close>
\<close>

function convert_loop :: "string \<Rightarrow> nat \<Rightarrow> int list \<Rightarrow> int list \<times> nat" where
  "convert_loop s i result =
     (if i < length s then
        (if s ! i = CHR ''_'' then convert_loop s (i + 1) (result @ [0])
         else (case parse_element s i of
                 (count, i1) \<Rightarrow>
                   if count = 0 then convert_loop s i1 (result @ [0])
                   else (case value_loop s count 0 i1 0 of
                           (package_sum, i2) \<Rightarrow> convert_loop s i2 (result @ [package_sum]))))
      else (result, i))"
  by pat_completeness auto

termination
proof (relation "measure (\<lambda>(s, i, result). length s - i)", goal_cases)
  case 1
  show ?case by simp
next
  case 2
  then show ?case by simp
next
  case 3
  then show ?case by (simp add: count_read_decreases)
next
  case 4
  then show ?case by (simp add: package_read_decreases)
qed

declare convert_loop.simps [simp del]

subsection \<open>Normalisation: \<^verbatim>\<open>s.strip().lower()\<close>\<close>

text \<open>
  \<^verbatim>\<open>str.strip()\<close> removes leading and trailing whitespace, and \<^verbatim>\<open>str.lower()\<close>
  maps every cased character to lower case. Both are Python built-ins; they are modelled
  on the code points below 256, where the whitespace characters are 9 to 13, 28 to 32,
  133 and 160, and the upper-case letters are 65 to 90 and 192 to 222 without 215, each
  32 below its lower-case letter.
\<close>

definition isspace :: "char \<Rightarrow> bool" where
  "isspace c = ((of_char c :: nat) \<in> set [9, 10, 11, 12, 13, 28, 29, 30, 31, 32, 133, 160])"

definition strip :: "string \<Rightarrow> string" where
  "strip s = rev (dropWhile isspace (rev (dropWhile isspace s)))"

definition lower_char :: "char \<Rightarrow> char" where
  "lower_char c =
     (let n = (of_char c :: nat)
      in if (65 \<le> n \<and> n \<le> 90) \<or> (192 \<le> n \<and> n \<le> 222 \<and> n \<noteq> 215)
         then char_of (n + 32) else c)"

definition lower :: "string \<Rightarrow> string" where
  "lower s = map lower_char s"

text \<open>
  \<^verbatim>\<open>
  def convert(self, s):
      s = s.strip().lower()
      i = 0
      n = len(s)
      result = []
      while i < n: ...
      return result
  \<close>
\<close>

definition convert :: "string \<Rightarrow> int list" where
  "convert s = fst (convert_loop (lower (strip s)) 0 [])"

subsection \<open>\<^verbatim>\<open>str.upper()\<close>\<close>

text \<open>
  \<^verbatim>\<open>str.upper()\<close>, the built-in that the case-insensitivity property refers to. It
  is modelled on the code points below 128, where it maps the letters 97 to 122 to the
  letters 32 below them and leaves every other character as it is.
\<close>

definition upper_char :: "char \<Rightarrow> char" where
  "upper_char c =
     (let n = (of_char c :: nat)
      in if 97 \<le> n \<and> n \<le> 122 then char_of (n - 32) else c)"

definition upper :: "string \<Rightarrow> string" where
  "upper s = map upper_char s"

subsection \<open>The intended alphabet\<close>

text \<open>The lower-case letters and the sentinel \<open>_\<close>.\<close>

definition letters :: string where
  "letters = ''abcdefghijklmnopqrstuvwxyz''"

definition in_alphabet :: "char \<Rightarrow> bool" where
  "in_alphabet c = (c = CHR ''_'' \<or> c \<in> set letters)"

definition over_alphabet :: "string \<Rightarrow> bool" where
  "over_alphabet s = list_all in_alphabet s"

subsection \<open>The decoder without the sentinel shortcut\<close>

text \<open>
  The loop of \<^const>\<open>convert_loop\<close> with the branch \<^verbatim>\<open>if s[i] == "_"\<close> removed, so
  that a sentinel is read as a count element like any other character.
\<close>

function convert_unified_loop :: "string \<Rightarrow> nat \<Rightarrow> int list \<Rightarrow> int list \<times> nat" where
  "convert_unified_loop s i result =
     (if i < length s then
        (case parse_element s i of
           (count, i1) \<Rightarrow>
             if count = 0 then convert_unified_loop s i1 (result @ [0])
             else (case value_loop s count 0 i1 0 of
                     (package_sum, i2) \<Rightarrow> convert_unified_loop s i2 (result @ [package_sum])))
      else (result, i))"
  by pat_completeness auto
termination
proof (relation "measure (\<lambda>(s, i, result). length s - i)", goal_cases)
  case 1
  show ?case by simp
next
  case 2
  then show ?case by (simp add: count_read_decreases)
next
  case 3
  then show ?case by (simp add: package_read_decreases)
qed

declare convert_unified_loop.simps [simp del]

definition convert_unified :: "string \<Rightarrow> int list" where
  "convert_unified s = fst (convert_unified_loop (lower (strip s)) 0 [])"

subsection \<open>The trace of a run\<close>

text \<open>
  The events of one run of the main loop, in order: a sentinel shortcut at cursor \<open>i\<close>,
  a count read or a value read by \<^const>\<open>parse_element\<close> that moves the cursor from \<open>i\<close>
  to \<open>j\<close> and returns the value \<open>v\<close>. \<open>convert_events\<close> follows the control flow of
  \<^const>\<open>convert_loop\<close> and records each assignment to the cursor.
\<close>

datatype event = SentinelStep nat | CountRead nat nat int | ValueRead nat nat int

fun before :: "event \<Rightarrow> nat" where
  "before (SentinelStep i) = i"
| "before (CountRead i j c) = i"
| "before (ValueRead i j v) = i"

fun after :: "event \<Rightarrow> nat" where
  "after (SentinelStep i) = i + 1"
| "after (CountRead i j c) = j"
| "after (ValueRead i j v) = j"

fun is_value_read :: "event \<Rightarrow> bool" where
  "is_value_read (ValueRead i j v) = True"
| "is_value_read e = False"

fun is_count_read :: "event \<Rightarrow> bool" where
  "is_count_read (CountRead i j c) = True"
| "is_count_read e = False"

fun element_value :: "event \<Rightarrow> int" where
  "element_value (SentinelStep i) = 0"
| "element_value (CountRead i j c) = c"
| "element_value (ValueRead i j v) = v"

function value_events :: "string \<Rightarrow> int \<Rightarrow> int \<Rightarrow> nat \<Rightarrow> event list" where
  "value_events s count read i =
     (if read < count \<and> i < length s
      then (case parse_element s i of
              (v, i') \<Rightarrow> ValueRead i i' v # value_events s count (read + 1) i')
      else [])"
  by pat_completeness auto
termination
  by (relation "measure (\<lambda>(s, count, read, i). nat (count - read))") auto

declare value_events.simps [simp del]

function convert_events :: "string \<Rightarrow> nat \<Rightarrow> event list" where
  "convert_events s i =
     (if i < length s then
        (if s ! i = CHR ''_'' then SentinelStep i # convert_events s (i + 1)
         else (case parse_element s i of
                 (count, i1) \<Rightarrow>
                   if count = 0 then CountRead i i1 count # convert_events s i1
                   else (case value_loop s count 0 i1 0 of
                           (package_sum, i2) \<Rightarrow>
                             CountRead i i1 count # value_events s count 0 i1
                               @ convert_events s i2)))
      else [])"
  by pat_completeness auto
termination
proof (relation "measure (\<lambda>(s, i). length s - i)", goal_cases)
  case 1
  show ?case by simp
next
  case 2
  then show ?case by simp
next
  case 3
  then show ?case by (simp add: count_read_decreases)
next
  case 4
  then show ?case by (simp add: package_read_decreases)
qed

declare convert_events.simps [simp del]

text \<open>
  A trace is chained from \<open>i\<close> to \<open>j\<close> when every event starts where the one before
  it ended. \<open>packages_of\<close> rebuilds the output from a trace: a zero package for every
  sentinel shortcut, and for every count read the sum of the value reads that follow it.
\<close>

fun chained :: "nat \<Rightarrow> event list \<Rightarrow> nat \<Rightarrow> bool" where
  "chained i [] j = (i = j)"
| "chained i (e # es) j = (before e = i \<and> chained (after e) es j)"

fun packages_of :: "event list \<Rightarrow> int list" where
  "packages_of [] = []"
| "packages_of (ValueRead i j v # es) = packages_of es"
| "packages_of (SentinelStep i # es) = 0 # packages_of es"
| "packages_of (CountRead i j c # es) =
     sum_list (map element_value (takeWhile is_value_read es)) # packages_of es"

text \<open>
  An event is scanned when it is what the code does at its cursor: a sentinel shortcut
  stands on a sentinel inside the stream, and a count read or value read is the result
  of \<^const>\<open>parse_element\<close> at a cursor inside the stream, a count read not on a sentinel.
\<close>

fun scanned :: "string \<Rightarrow> event \<Rightarrow> bool" where
  "scanned s (SentinelStep i) = (i < length s \<and> s ! i = CHR ''_'')"
| "scanned s (CountRead i j c) =
     (i < length s \<and> s ! i \<noteq> CHR ''_'' \<and> parse_element s i = (c, j))"
| "scanned s (ValueRead i j v) = (i < length s \<and> parse_element s i = (v, j))"

subsection \<open>The scanner and the decoder as the specification words them\<close>

text \<open>
  The element scanner of the specification: the value 0 and no move at the end of the
  stream; 0 for the sentinel; the 1-based position in the alphabet for a letter other
  than \<open>z\<close>; and for \<open>z\<close>, 26 times the length of the maximal run of \<open>z\<close>, plus the
  simple value of the one character after the run when there is one.
\<close>

definition alpha_pos :: "char \<Rightarrow> int" where
  "alpha_pos c = int (length (takeWhile (\<lambda>x. x \<noteq> c) letters)) + 1"

definition simple_value :: "char \<Rightarrow> int" where
  "simple_value c = (if c = CHR ''_'' then 0 else alpha_pos c)"

definition z_run :: "string \<Rightarrow> nat \<Rightarrow> nat" where
  "z_run s i = length (takeWhile (\<lambda>c. c = CHR ''z'') (drop i s))"

definition spec_scan :: "string \<Rightarrow> nat \<Rightarrow> int \<times> nat" where
  "spec_scan s i =
     (if length s \<le> i then (0, i)
      else if s ! i = CHR ''_'' then (0, i + 1)
      else if s ! i \<noteq> CHR ''z'' then (alpha_pos (s ! i), i + 1)
      else (let k = z_run s i
            in if i + k < length s
               then (26 * int k + simple_value (s ! (i + k)), i + k + 1)
               else (26 * int k, i + k)))"

text \<open>
  The sequence decoder of the specification: \<open>spec_read\<close> reads up to \<open>k\<close> further
  elements and stops early at the end of the stream; \<open>spec_decode\<close> emits one package
  for each sentinel, each zero count and each group, in the order met.
\<close>

fun spec_read :: "string \<Rightarrow> nat \<Rightarrow> nat \<Rightarrow> int list \<times> nat" where
  "spec_read s i 0 = ([], i)"
| "spec_read s i (Suc k) =
     (if length s \<le> i then ([], i)
      else (case spec_scan s i of
              (v, j) \<Rightarrow> (case spec_read s j k of (vs, l) \<Rightarrow> (v # vs, l))))"

lemma z_run_pos: "i < length s \<Longrightarrow> s ! i = CHR ''z'' \<Longrightarrow> 0 < z_run s i"
  by (simp add: z_run_def Cons_nth_drop_Suc [symmetric])

lemma spec_scan_advances: "i < length s \<Longrightarrow> i < snd (spec_scan s i)"
  using z_run_pos [of i s] by (auto simp: spec_scan_def Let_def)

lemma spec_scan_ge: "i \<le> snd (spec_scan s i)"
  by (auto simp: spec_scan_def Let_def)

lemma spec_read_ge: "i \<le> snd (spec_read s i k)"
proof (induction k arbitrary: i)
  case 0
  show ?case by simp
next
  case (Suc k)
  show ?case
  proof (cases "length s \<le> i")
    case True
    then show ?thesis by simp
  next
    case False
    obtain v j where sc: "spec_scan s i = (v, j)" by (cases "spec_scan s i")
    obtain vs l where rd: "spec_read s j k = (vs, l)" by (cases "spec_read s j k")
    have "i \<le> j" using spec_scan_ge [of i s] sc by simp
    moreover have "j \<le> l" using Suc [of j] rd by simp
    ultimately show ?thesis using False sc rd by simp
  qed
qed

lemma spec_count_decreases:
  "i < length s \<Longrightarrow> (c, j) = spec_scan s i \<Longrightarrow> length s - j < length s - i"
  using spec_scan_advances [of i s] by (cases "spec_scan s i") auto

lemma spec_package_decreases:
  "i < length s \<Longrightarrow> (c, j) = spec_scan s i \<Longrightarrow> (vs, k) = spec_read s j m
     \<Longrightarrow> length s - k < length s - i"
  using spec_scan_advances [of i s] spec_read_ge [of j s m]
  by (cases "spec_scan s i"; cases "spec_read s j m") auto

function spec_decode :: "string \<Rightarrow> nat \<Rightarrow> int list" where
  "spec_decode s i =
     (if length s \<le> i then []
      else if s ! i = CHR ''_'' then 0 # spec_decode s (i + 1)
      else (case spec_scan s i of
              (count, j) \<Rightarrow>
                if count = 0 then 0 # spec_decode s j
                else (case spec_read s j (nat count) of
                        (vs, k) \<Rightarrow> sum_list vs # spec_decode s k)))"
  by pat_completeness auto
termination
proof (relation "measure (\<lambda>(s, i). length s - i)", goal_cases)
  case 1
  show ?case by simp
next
  case 2
  then show ?case by simp
next
  case 3
  then show ?case by (simp add: spec_count_decreases)
next
  case 4
  then show ?case by (simp add: spec_package_decreases)
qed

declare spec_decode.simps [simp del]

section \<open>Properties\<close>

subsection \<open>Normalisation leaves some strings alone\<close>

lemma dropWhile_none: "\<forall>c \<in> set s. \<not> P c \<Longrightarrow> dropWhile P s = s"
  by (cases s) auto

lemma strip_no_space: "\<forall>c \<in> set s. \<not> isspace c \<Longrightarrow> strip s = s"
  by (simp add: strip_def dropWhile_none)

subsection \<open>The examples of the specification\<close>

lemma convert_loop_sentinels:
  "i \<le> N \<Longrightarrow> convert_loop (replicate N CHR ''_'') i r = (r @ replicate (N - i) 0, N)"
proof (induction "N - i" arbitrary: i r)
  case 0
  then show ?case by (subst convert_loop.simps) simp
next
  case (Suc k)
  then have lt: "i < N" and k: "k = N - (i + 1)" and le: "i + 1 \<le> N" by auto
  have "convert_loop (replicate N CHR ''_'') i r
          = convert_loop (replicate N CHR ''_'') (i + 1) (r @ [0])"
    using lt by (subst convert_loop.simps) simp
  also have "\<dots> = ((r @ [0]) @ replicate (N - (i + 1)) 0, N)"
    using Suc.hyps(1) [OF k le] .
  also have "(r @ [0]) @ replicate (N - (i + 1)) 0 = r @ replicate (N - i) 0"
    using lt by (simp add: Suc_diff_Suc replicate_Suc [symmetric] del: replicate_Suc)
  finally show ?case .
qed

lemma convert_sentinels: "convert (replicate N CHR ''_'') = replicate N 0"
proof -
  have "strip (replicate N CHR ''_'') = replicate N CHR ''_''"
    by (rule strip_no_space) (simp add: isspace_def)
  moreover have "lower (replicate N CHR ''_'') = replicate N CHR ''_''"
    by (simp add: lower_def lower_char_def)
  ultimately show ?thesis
    using convert_loop_sentinels [of 0 N "[]"] by (simp add: convert_def)
qed

text \<open>
  Claim C3. The decode equations of the specification hold: the empty string gives the
  empty sequence, \<open>_\<close> gives \<open>[0]\<close>, \<open>a\<close> gives \<open>[0]\<close>, \<open>aa\<close> gives \<open>[1]\<close>, \<open>ab\<close>
  gives \<open>[2]\<close>, \<open>za\<close> and \<open>zza\<close> give \<open>[0]\<close>, and a string of \<open>N\<close> sentinels gives
  \<open>N\<close> zeros, for every \<open>N\<close>.
\<close>

theorem decode_examples:
  "convert '''' = [] \<and> convert ''_'' = [0] \<and> convert ''a'' = [0] \<and> convert ''aa'' = [1]
   \<and> convert ''ab'' = [2] \<and> convert ''za'' = [0] \<and> convert ''zza'' = [0]
   \<and> (\<forall>N. convert (replicate N CHR ''_'') = replicate N 0)"
proof (intro conjI allI)
  show "convert '''' = []" by code_simp
  show "convert ''_'' = [0]" by code_simp
  show "convert ''a'' = [0]" by code_simp
  show "convert ''aa'' = [1]" by code_simp
  show "convert ''ab'' = [2]" by code_simp
  show "convert ''za'' = [0]" by code_simp
  show "convert ''zza'' = [0]" by code_simp
  show "convert (replicate N CHR ''_'') = replicate N 0" for N
    by (rule convert_sentinels)
qed

subsection \<open>Characters outside the alphabet\<close>

text \<open>
  Claim C10, as stated: \<^verbatim>\<open>_val\<close> coerces every character other than \<open>_\<close> by its
  ordinal, so every character below \<open>a\<close> yields a negative value. The character with
  code point 96, just below \<open>a\<close>, is not the sentinel and yields 0, which is not
  negative.
\<close>

theorem val_below_a_counterexample:
  "CHR 0x60 \<noteq> CHR ''_'' \<and> (of_char (CHR 0x60) :: nat) < of_char CHR ''a''
   \<and> \<not> val (CHR 0x60) < 0"
  by (simp add: val_def)

text \<open>
  Claim C10, amended: for every character \<open>c\<close> other than \<open>_\<close>, \<^verbatim>\<open>_val(c)\<close> is
  \<^verbatim>\<open>ord(c) - ord('a') + 1\<close>; it is negative when the code point of \<open>c\<close> is below 96
  and 0 when it is 96; and \<^verbatim>\<open>convert\<close> can return a negative integer:
  \<^verbatim>\<open>convert("a0") = [-48]\<close>.
\<close>

theorem val_ordinal_coercion:
  "c \<noteq> CHR ''_'' \<Longrightarrow>
     val c = int (of_char c) - int (of_char CHR ''a'') + 1
     \<and> ((of_char c :: nat) < 96 \<longrightarrow> val c < 0)
     \<and> ((of_char c :: nat) = 96 \<longrightarrow> val c = 0)
     \<and> convert ''a0'' = [- 48]"
proof -
  assume "c \<noteq> CHR ''_''"
  then have v: "val c = int (of_char c) - int (of_char CHR ''a'') + 1"
    by (simp add: val_def)
  have ex: "convert ''a0'' = [- 48]" by code_simp
  from v ex show ?thesis by simp
qed

theorem val_ordinal_coercion_witness:
  "CHR ''0'' \<noteq> CHR ''_'' \<and> val CHR ''0'' = - 48 \<and> val CHR ''0'' < 0
   \<and> convert ''a0'' = [- 48]"
  using val_ordinal_coercion [of "CHR ''0''"] by simp

subsection \<open>Element values on the alphabet\<close>

lemma letters_facts:
  "list_all (\<lambda>c. c \<noteq> CHR ''_'' \<and> 97 \<le> (of_char c :: nat) \<and> (of_char c :: nat) \<le> 122
       \<and> val c = alpha_pos c \<and> (c = CHR ''z'' \<or> val c \<le> 25)) letters"
  by code_simp

lemma letter_facts:
  assumes "c \<in> set letters"
  shows "c \<noteq> CHR ''_'' \<and> 97 \<le> (of_char c :: nat) \<and> (of_char c :: nat) \<le> 122
       \<and> val c = alpha_pos c \<and> (c = CHR ''z'' \<or> val c \<le> 25)"
proof -
  have "\<forall>c \<in> set letters. c \<noteq> CHR ''_'' \<and> 97 \<le> (of_char c :: nat) \<and> (of_char c :: nat) \<le> 122
       \<and> val c = alpha_pos c \<and> (c = CHR ''z'' \<or> val c \<le> 25)"
    using letters_facts unfolding list_all_iff .
  with assms show ?thesis by blast
qed

lemma val_sentinel: "val CHR ''_'' = 0"
  by (simp add: val_def)

lemma val_letter_value: "c \<noteq> CHR ''_'' \<Longrightarrow> val c = int (of_char c) - 96"
  by (simp add: val_def)

lemma val_simple: "in_alphabet c \<Longrightarrow> val c = simple_value c"
proof (cases "c = CHR ''_''")
  case True
  then show ?thesis by (simp add: val_def simple_value_def)
next
  case False
  assume "in_alphabet c"
  with False have "c \<in> set letters" by (simp add: in_alphabet_def)
  then have "val c = alpha_pos c" using letter_facts by blast
  with False show ?thesis by (simp add: simple_value_def)
qed

lemma val_range: "in_alphabet c \<Longrightarrow> 0 \<le> val c \<and> val c \<le> 26"
proof (cases "c = CHR ''_''")
  case True
  then show ?thesis by (simp add: val_sentinel)
next
  case False
  assume "in_alphabet c"
  with False have "c \<in> set letters" by (simp add: in_alphabet_def)
  then have "97 \<le> (of_char c :: nat) \<and> (of_char c :: nat) \<le> 122" using letter_facts by blast
  then show ?thesis using val_letter_value [OF False] by linarith
qed

lemma val_pos: "in_alphabet c \<Longrightarrow> c \<noteq> CHR ''_'' \<Longrightarrow> 1 \<le> val c"
proof -
  assume "in_alphabet c" and ne: "c \<noteq> CHR ''_''"
  then have "c \<in> set letters" by (simp add: in_alphabet_def)
  then have "97 \<le> (of_char c :: nat)" using letter_facts by blast
  then show ?thesis using val_letter_value [OF ne] by linarith
qed

lemma val_not_z: "in_alphabet c \<Longrightarrow> c \<noteq> CHR ''z'' \<Longrightarrow> val c \<le> 25"
proof (cases "c = CHR ''_''")
  case True
  then show ?thesis by (simp add: val_sentinel)
next
  case False
  assume "in_alphabet c" and nz: "c \<noteq> CHR ''z''"
  with False have "c \<in> set letters" by (simp add: in_alphabet_def)
  then have "c = CHR ''z'' \<or> val c \<le> 25" using letter_facts by blast
  with nz show ?thesis by simp
qed

lemma over_alphabet_nth: "over_alphabet s \<Longrightarrow> i < length s \<Longrightarrow> in_alphabet (s ! i)"
  by (simp add: over_alphabet_def list_all_length)

subsection \<open>The run of \<open>z\<close> that the scanner consumes\<close>

lemma z_run_end: "length s \<le> i \<Longrightarrow> z_run s i = 0"
  by (simp add: z_run_def)

lemma z_run_stop: "i < length s \<Longrightarrow> s ! i \<noteq> CHR ''z'' \<Longrightarrow> z_run s i = 0"
  by (simp add: z_run_def Cons_nth_drop_Suc [symmetric])

lemma z_run_step: "i < length s \<Longrightarrow> s ! i = CHR ''z'' \<Longrightarrow> z_run s i = Suc (z_run s (i + 1))"
  by (simp add: z_run_def Cons_nth_drop_Suc [symmetric])

lemma after_z_run: "i + z_run s i < length s \<Longrightarrow> s ! (i + z_run s i) \<noteq> CHR ''z''"
proof -
  assume a: "i + z_run s i < length s"
  let ?P = "\<lambda>c. c = CHR ''z''"
  have "length (takeWhile ?P (drop i s)) < length (drop i s)"
    using a by (simp add: z_run_def)
  then have "\<not> ?P (drop i s ! length (takeWhile ?P (drop i s)))"
    by (rule nth_length_takeWhile)
  then show ?thesis using a by (simp add: z_run_def)
qed

lemma z_loop_z_run: "z_loop s i t = (t + 26 * int (z_run s i), i + z_run s i)"
proof (induction s i t rule: z_loop.induct)
  case (1 s i tot)
  show ?case
  proof (cases "i < length s \<and> s ! i = CHR ''z''")
    case True
    then have "z_loop s i tot = z_loop s (i + 1) (tot + 26)"
      by (subst z_loop.simps) simp
    also have "\<dots> = (tot + 26 + 26 * int (z_run s (i + 1)), i + 1 + z_run s (i + 1))"
      using 1 True by simp
    finally show ?thesis using True by (simp add: z_run_step)
  next
    case False
    then have "z_run s i = 0"
      by (cases "i < length s") (simp_all add: z_run_end z_run_stop)
    with False show ?thesis by (subst z_loop.simps) auto
  qed
qed

lemma parse_element_z:
  "i < length s \<Longrightarrow> s ! i = CHR ''z'' \<Longrightarrow>
   parse_element s i =
     (if i + z_run s i < length s
      then (26 * int (z_run s i) + val (s ! (i + z_run s i)), i + z_run s i + 1)
      else (26 * int (z_run s i), i + z_run s i))"
  by (simp add: parse_element_def z_loop_z_run)

lemma parse_element_spec_scan:
  assumes "over_alphabet s"
  shows "parse_element s i = spec_scan s i"
proof (cases "i < length s")
  case False
  then show ?thesis by (simp add: parse_element_def spec_scan_def)
next
  case lt: True
  then have al: "in_alphabet (s ! i)" using assms by (simp add: over_alphabet_nth)
  show ?thesis
  proof (cases "s ! i = CHR ''z''")
    case False
    have "val (s ! i) = simple_value (s ! i)" using al by (rule val_simple)
    then show ?thesis using lt False
      by (simp add: parse_element_def spec_scan_def simple_value_def val_sentinel)
  next
    case True
    show ?thesis
    proof (cases "i + z_run s i < length s")
      case False
      with True lt show ?thesis
        by (simp add: parse_element_z spec_scan_def Let_def)
    next
      case run: True
      then have "in_alphabet (s ! (i + z_run s i))" using assms by (simp add: over_alphabet_nth)
      then have "val (s ! (i + z_run s i)) = simple_value (s ! (i + z_run s i))"
        by (rule val_simple)
      with True lt run show ?thesis
        by (simp add: parse_element_z spec_scan_def Let_def)
    qed
  qed
qed

text \<open>
  Claim C2. For every string \<open>s\<close> over the alphabet and every cursor \<open>i\<close> with
  \<open>i \<le> length s\<close>, \<^verbatim>\<open>_parse_element(s, i)\<close> returns what the scanner of the
  specification returns: \<open>(0, i)\<close> at the end of the stream; \<open>(0, i + 1)\<close> at a
  sentinel; the 1-based alphabet position, which is between 1 and 25, and \<open>i + 1\<close> at a
  letter other than \<open>z\<close>; and at a \<open>z\<close>, 26 times the length of the maximal run of \<open>z\<close>
  starting at \<open>i\<close>, plus the simple value of the one character after the run when there
  is one, the cursor just past the last character consumed. That character is not a \<open>z\<close>
  and its value is between 0 and 25.
\<close>

theorem parse_element_rules:
  assumes "over_alphabet s" and "i \<le> length s"
  shows "parse_element s i = spec_scan s i
    \<and> (i < length s \<and> s ! i \<noteq> CHR ''_'' \<and> s ! i \<noteq> CHR ''z''
          \<longrightarrow> 1 \<le> alpha_pos (s ! i) \<and> alpha_pos (s ! i) \<le> 25)
    \<and> (i < length s \<and> s ! i = CHR ''z'' \<and> i + z_run s i < length s
          \<longrightarrow> s ! (i + z_run s i) \<noteq> CHR ''z''
              \<and> 0 \<le> simple_value (s ! (i + z_run s i))
              \<and> simple_value (s ! (i + z_run s i)) \<le> 25)"
proof (intro conjI impI)
  show "parse_element s i = spec_scan s i"
    using assms(1) by (rule parse_element_spec_scan)
next
  assume a: "i < length s \<and> s ! i \<noteq> CHR ''_'' \<and> s ! i \<noteq> CHR ''z''"
  then have al: "in_alphabet (s ! i)" using assms(1) by (simp add: over_alphabet_nth)
  have v: "val (s ! i) = alpha_pos (s ! i)"
    using val_simple [OF al] a by (simp add: simple_value_def)
  show "1 \<le> alpha_pos (s ! i)" using val_pos [OF al] a v by simp
  show "alpha_pos (s ! i) \<le> 25" using val_not_z [OF al] a v by simp
next
  assume a: "i < length s \<and> s ! i = CHR ''z'' \<and> i + z_run s i < length s"
  let ?c = "s ! (i + z_run s i)"
  have al: "in_alphabet ?c" using a assms(1) by (simp add: over_alphabet_nth)
  show nz: "?c \<noteq> CHR ''z''" using a by (simp add: after_z_run)
  show "0 \<le> simple_value ?c" using val_range [OF al] val_simple [OF al] by simp
  show "simple_value ?c \<le> 25" using val_not_z [OF al nz] val_simple [OF al] by simp
qed

theorem parse_element_rules_witness:
  "over_alphabet ''azzb'' \<and> parse_element ''azzb'' 1 = (54, 4)
   \<and> ''azzb'' ! (1 + z_run ''azzb'' 1) \<noteq> CHR ''z''"
proof -
  have h1: "over_alphabet ''azzb''" by code_simp
  have h2: "(1::nat) \<le> length ''azzb''" by simp
  have e: "spec_scan ''azzb'' 1 = (54, 4)" by code_simp
  have z: "z_run ''azzb'' 1 = 2" by code_simp
  from parse_element_rules [OF h1 h2] h1 e z show ?thesis by simp
qed

subsection \<open>The decoder follows the algorithm of the specification\<close>

lemma value_loop_spec_read:
  "over_alphabet s \<Longrightarrow>
   value_loop s count read i acc =
     (case spec_read s i (nat (count - read)) of (vs, k) \<Rightarrow> (acc + sum_list vs, k))"
proof (induction s count read i acc rule: value_loop.induct)
  case (1 s count read i package_sum)
  show ?case
  proof (cases "read < count")
    case False
    then have "nat (count - read) = 0" by simp
    with False show ?thesis by (subst value_loop.simps) simp
  next
    case rc: True
    then have n: "nat (count - read) = Suc (nat (count - (read + 1)))" by simp
    show ?thesis
    proof (cases "i < length s")
      case False
      with rc show ?thesis by (subst value_loop.simps) (simp add: n)
    next
      case lt: True
      obtain v i' where pe: "parse_element s i = (v, i')" by (cases "parse_element s i")
      then have sc: "spec_scan s i = (v, i')" using "1.prems" by (simp add: parse_element_spec_scan)
      have "value_loop s count read i package_sum
              = value_loop s count (read + 1) i' (package_sum + v)"
        using rc lt pe by (subst value_loop.simps) simp
      also have "\<dots> = (case spec_read s i' (nat (count - (read + 1))) of
                          (vs, k) \<Rightarrow> (package_sum + v + sum_list vs, k))"
        using "1.IH" [of v i'] rc lt pe "1.prems" by simp
      also have "\<dots> = (case spec_read s i (nat (count - read)) of
                          (vs, k) \<Rightarrow> (package_sum + sum_list vs, k))"
        using lt sc by (simp add: n split: prod.splits)
      finally show ?thesis .
    qed
  qed
qed

lemma convert_loop_spec_decode:
  "over_alphabet s \<Longrightarrow> fst (convert_loop s i r) = r @ spec_decode s i"
proof (induction s i r rule: convert_loop.induct)
  case (1 s i result)
  show ?case
  proof (cases "i < length s")
    case False
    then show ?thesis by (simp add: convert_loop.simps spec_decode.simps)
  next
    case lt: True
    show ?thesis
    proof (cases "s ! i = CHR ''_''")
      case True
      have "fst (convert_loop s i result) = fst (convert_loop s (i + 1) (result @ [0]))"
        using lt True by (subst convert_loop.simps) simp
      also have "\<dots> = (result @ [0]) @ spec_decode s (i + 1)"
        using "1.IH"(1) [OF lt True "1.prems"] .
      also have "\<dots> = result @ spec_decode s i"
        using lt True by (subst (2) spec_decode.simps) simp
      finally show ?thesis .
    next
      case False
      obtain count i1 where pe: "parse_element s i = (count, i1)"
        by (cases "parse_element s i")
      then have sc: "spec_scan s i = (count, i1)"
        using "1.prems" by (simp add: parse_element_spec_scan)
      show ?thesis
      proof (cases "count = 0")
        case True
        have "fst (convert_loop s i result) = fst (convert_loop s i1 (result @ [0]))"
          using lt False pe True by (subst convert_loop.simps) simp
        also have "\<dots> = (result @ [0]) @ spec_decode s i1"
          using "1.IH"(2) [OF lt False pe [symmetric] True "1.prems"] .
        also have "\<dots> = result @ spec_decode s i"
          using lt False sc True by (subst (2) spec_decode.simps) simp
        finally show ?thesis .
      next
        case nz: False
        obtain package_sum i2 where vl: "value_loop s count 0 i1 0 = (package_sum, i2)"
          by (cases "value_loop s count 0 i1 0")
        obtain vs k where rd: "spec_read s i1 (nat count) = (vs, k)"
          by (cases "spec_read s i1 (nat count)")
        have eq: "package_sum = sum_list vs" "i2 = k"
          using value_loop_spec_read [OF "1.prems", of count 0 i1 0] vl rd by simp_all
        have "fst (convert_loop s i result) = fst (convert_loop s i2 (result @ [package_sum]))"
          using lt False pe nz vl by (subst convert_loop.simps) simp
        also have "\<dots> = (result @ [package_sum]) @ spec_decode s i2"
          using "1.IH"(3) [OF lt False pe [symmetric] nz vl [symmetric] "1.prems"] .
        also have "\<dots> = result @ spec_decode s i"
          using lt False sc nz rd eq by (subst (2) spec_decode.simps) simp
        finally show ?thesis .
      qed
    qed
  qed
qed

lemma lower_alphabet: "over_alphabet s \<Longrightarrow> lower s = s"
proof -
  assume a: "over_alphabet s"
  have "lower_char c = c" if "c \<in> set s" for c
  proof -
    have "in_alphabet c" using a that by (simp add: over_alphabet_def list_all_iff)
    then show ?thesis
      using letter_facts [of c] by (auto simp: in_alphabet_def lower_char_def Let_def)
  qed
  then show ?thesis by (simp add: lower_def map_idI)
qed

lemma alphabet_no_space: "in_alphabet c \<Longrightarrow> \<not> isspace c"
  using letter_facts [of c] by (auto simp: in_alphabet_def isspace_def)

lemma strip_alphabet: "over_alphabet s \<Longrightarrow> strip s = s"
  by (rule strip_no_space) (simp add: over_alphabet_def list_all_iff alphabet_no_space)

lemma normalise_alphabet: "over_alphabet s \<Longrightarrow> lower (strip s) = s"
  by (simp add: strip_alphabet lower_alphabet)

text \<open>
  Claim C1. For every string over the alphabet, \<^verbatim>\<open>convert(s)\<close> is the list that the
  sequence decoder of the specification produces from cursor 0: a zero package for a
  sentinel, a zero package for a zero count, and otherwise the sum of up to \<open>count\<close>
  further elements, fewer when the stream ends, in the order met.
\<close>

theorem convert_refines_spec_decode:
  "over_alphabet s \<Longrightarrow> convert s = spec_decode s 0"
  using convert_loop_spec_decode [of s 0 "[]"] by (simp add: convert_def normalise_alphabet)

theorem convert_refines_spec_decode_witness:
  "over_alphabet ''azzb_zzzcab'' \<and> convert ''azzb_zzzcab'' = spec_decode ''azzb_zzzcab'' 0
   \<and> spec_decode ''azzb_zzzcab'' 0 = [54, 0, 3]"
proof -
  have h: "over_alphabet ''azzb_zzzcab''" by code_simp
  have e: "spec_decode ''azzb_zzzcab'' 0 = [54, 0, 3]" by code_simp
  from h e convert_refines_spec_decode [OF h] show ?thesis by simp
qed

subsection \<open>The sentinel shortcut\<close>

lemma parse_element_sentinel:
  "i < length s \<Longrightarrow> s ! i = CHR ''_'' \<Longrightarrow> parse_element s i = (0, i + 1)"
  by (simp add: parse_element_def val_def)

lemma unified_loop_eq: "convert_unified_loop s i r = convert_loop s i r"
proof (induction s i r rule: convert_loop.induct)
  case (1 s i result)
  show ?case
  proof (cases "i < length s")
    case False
    then show ?thesis by (simp add: convert_loop.simps convert_unified_loop.simps)
  next
    case lt: True
    obtain count i1 where pe: "parse_element s i = (count, i1)"
      by (cases "parse_element s i")
    show ?thesis
    proof (cases "s ! i = CHR ''_''")
      case True
      then have c0: "count = 0" and i1: "i1 = i + 1"
        using parse_element_sentinel [OF lt True] pe by simp_all
      have "convert_unified_loop s i result = convert_unified_loop s (i + 1) (result @ [0])"
        using lt pe c0 i1 by (subst convert_unified_loop.simps) simp
      also have "\<dots> = convert_loop s (i + 1) (result @ [0])"
        using "1.IH"(1) [OF lt True] .
      also have "\<dots> = convert_loop s i result"
        using lt True by (subst (2) convert_loop.simps) simp
      finally show ?thesis .
    next
      case False
      show ?thesis
      proof (cases "count = 0")
        case True
        have "convert_unified_loop s i result = convert_unified_loop s i1 (result @ [0])"
          using lt pe True by (subst convert_unified_loop.simps) simp
        also have "\<dots> = convert_loop s i1 (result @ [0])"
          using "1.IH"(2) [OF lt False pe [symmetric] True] .
        also have "\<dots> = convert_loop s i result"
          using lt False pe True by (subst (2) convert_loop.simps) simp
        finally show ?thesis .
      next
        case nz: False
        obtain package_sum i2 where vl: "value_loop s count 0 i1 0 = (package_sum, i2)"
          by (cases "value_loop s count 0 i1 0")
        have "convert_unified_loop s i result
                = convert_unified_loop s i2 (result @ [package_sum])"
          using lt pe nz vl by (subst convert_unified_loop.simps) simp
        also have "\<dots> = convert_loop s i2 (result @ [package_sum])"
          using "1.IH"(3) [OF lt False pe [symmetric] nz vl [symmetric]] .
        also have "\<dots> = convert_loop s i result"
          using lt False pe nz vl by (subst (2) convert_loop.simps) simp
        finally show ?thesis .
      qed
    qed
  qed
qed

text \<open>
  Claim C7. The sentinel shortcut is redundant: \<^verbatim>\<open>convert\<close> returns the same
  sequence as the decoder without the shortcut, in which a sentinel is read as a count
  element, gives the count 0 and appends a zero package. This holds for every string,
  so for every string over the alphabet.
\<close>

theorem sentinel_shortcut_redundant: "convert s = convert_unified s"
  by (simp add: convert_def convert_unified_def unified_loop_eq)

subsection \<open>The trace accounts for the run\<close>

lemma value_events_scanned:
  "list_all (scanned s) (value_events s c r i) \<and> list_all is_value_read (value_events s c r i)"
proof (induction s c r i rule: value_events.induct)
  case (1 s count read i)
  show ?case
  proof (cases "read < count \<and> i < length s")
    case False
    then show ?thesis by (subst (1 2) value_events.simps) auto
  next
    case True
    obtain v i' where pe: "parse_element s i = (v, i')" by (cases "parse_element s i")
    have ev: "value_events s count read i = ValueRead i i' v # value_events s count (read + 1) i'"
      using True pe by (subst value_events.simps) simp
    show ?thesis using "1.IH" [OF True pe [symmetric]] True pe by (simp add: ev)
  qed
qed

lemma value_loop_events:
  "value_loop s c r i p =
     (p + sum_list (map element_value (value_events s c r i)),
      snd (value_loop s c r i p))
   \<and> chained i (value_events s c r i) (snd (value_loop s c r i p))"
proof (induction s c r i p rule: value_loop.induct)
  case (1 s count read i package_sum)
  show ?case
  proof (cases "read < count \<and> i < length s")
    case False
    then have "value_events s count read i = []" by (subst value_events.simps) auto
    moreover have "value_loop s count read i package_sum = (package_sum, i)"
      using False by (subst value_loop.simps) auto
    ultimately show ?thesis by simp
  next
    case True
    obtain v i' where pe: "parse_element s i = (v, i')" by (cases "parse_element s i")
    have ev: "value_events s count read i = ValueRead i i' v # value_events s count (read + 1) i'"
      using True pe by (subst value_events.simps) simp
    have vl: "value_loop s count read i package_sum
                = value_loop s count (read + 1) i' (package_sum + v)"
      using True pe by (subst value_loop.simps) simp
    show ?thesis using "1.IH" [OF True pe [symmetric]] by (simp add: ev vl add.assoc)
  qed
qed

lemma chained_append:
  "chained i xs j \<Longrightarrow> chained j ys k \<Longrightarrow> chained i (xs @ ys) k"
  by (induction xs arbitrary: i) auto

lemma packages_of_values:
  "list_all is_value_read vs \<Longrightarrow> packages_of (vs @ es) = packages_of es"
proof (induction vs)
  case Nil
  show ?case by simp
next
  case (Cons e vs)
  then show ?case by (cases e) simp_all
qed

lemma takeWhile_values:
  "list_all is_value_read vs \<Longrightarrow> es = [] \<or> \<not> is_value_read (hd es)
     \<Longrightarrow> takeWhile is_value_read (vs @ es) = vs"
  by (induction vs) (auto simp: takeWhile_eq_Nil_iff hd_in_set intro: bexI [of _ "hd es"])

lemma convert_events_end: "\<not> i < length s \<Longrightarrow> convert_events s i = []"
  by (subst convert_events.simps) simp

lemma convert_events_sentinel:
  "i < length s \<Longrightarrow> s ! i = CHR ''_'' \<Longrightarrow>
   convert_events s i = SentinelStep i # convert_events s (i + 1)"
  by (subst convert_events.simps) simp

lemma convert_events_zero:
  "i < length s \<Longrightarrow> s ! i \<noteq> CHR ''_'' \<Longrightarrow> parse_element s i = (0, i1) \<Longrightarrow>
   convert_events s i = CountRead i i1 0 # convert_events s i1"
  by (subst convert_events.simps) simp

lemma convert_events_group:
  "i < length s \<Longrightarrow> s ! i \<noteq> CHR ''_'' \<Longrightarrow> parse_element s i = (c, i1) \<Longrightarrow> c \<noteq> 0 \<Longrightarrow>
   value_loop s c 0 i1 0 = (p, i2) \<Longrightarrow>
   convert_events s i = CountRead i i1 c # value_events s c 0 i1 @ convert_events s i2"
  by (subst convert_events.simps) simp

lemma convert_loop_end: "\<not> i < length s \<Longrightarrow> convert_loop s i r = (r, i)"
  by (subst convert_loop.simps) simp

lemma convert_loop_sentinel:
  "i < length s \<Longrightarrow> s ! i = CHR ''_'' \<Longrightarrow>
   convert_loop s i r = convert_loop s (i + 1) (r @ [0])"
  by (subst convert_loop.simps) simp

lemma convert_loop_zero:
  "i < length s \<Longrightarrow> s ! i \<noteq> CHR ''_'' \<Longrightarrow> parse_element s i = (0, i1) \<Longrightarrow>
   convert_loop s i r = convert_loop s i1 (r @ [0])"
  by (subst convert_loop.simps) simp

lemma convert_loop_group:
  "i < length s \<Longrightarrow> s ! i \<noteq> CHR ''_'' \<Longrightarrow> parse_element s i = (c, i1) \<Longrightarrow> c \<noteq> 0 \<Longrightarrow>
   value_loop s c 0 i1 0 = (p, i2) \<Longrightarrow>
   convert_loop s i r = convert_loop s i2 (r @ [p])"
  by (subst convert_loop.simps) simp

text \<open>One induction principle for every property of a run.\<close>

lemma run_induct [case_names End Sentinel Zero Group]:
  assumes "\<And>s i. \<not> i < length s \<Longrightarrow> P s i"
    and "\<And>s i. i < length s \<Longrightarrow> s ! i = CHR ''_'' \<Longrightarrow> P s (i + 1) \<Longrightarrow> P s i"
    and "\<And>s i i1. i < length s \<Longrightarrow> s ! i \<noteq> CHR ''_'' \<Longrightarrow> parse_element s i = (0, i1)
           \<Longrightarrow> P s i1 \<Longrightarrow> P s i"
    and "\<And>s i c i1 p i2. i < length s \<Longrightarrow> s ! i \<noteq> CHR ''_'' \<Longrightarrow> parse_element s i = (c, i1)
           \<Longrightarrow> c \<noteq> 0 \<Longrightarrow> value_loop s c 0 i1 0 = (p, i2) \<Longrightarrow> P s i2 \<Longrightarrow> P s i"
  shows "P s i"
proof (induction s i rule: convert_events.induct)
  case (1 s i)
  show ?case
  proof (cases "i < length s")
    case False
    then show ?thesis by (rule assms(1))
  next
    case lt: True
    show ?thesis
    proof (cases "s ! i = CHR ''_''")
      case True
      show ?thesis using lt True "1.IH"(1) [OF lt True] by (rule assms(2))
    next
      case False
      obtain c i1 where pe: "parse_element s i = (c, i1)" by (cases "parse_element s i")
      show ?thesis
      proof (cases "c = 0")
        case True
        have "P s i1" using "1.IH"(2) [OF lt False pe [symmetric] True] .
        with lt False pe True show ?thesis using assms(3) [of i s i1] by simp
      next
        case nz: False
        obtain p i2 where vl: "value_loop s c 0 i1 0 = (p, i2)"
          by (cases "value_loop s c 0 i1 0")
        have "P s i2" using "1.IH"(3) [OF lt False pe [symmetric] nz vl [symmetric]] .
        with lt False pe nz vl show ?thesis by (rule assms(4))
      qed
    qed
  qed
qed

lemma convert_events_scanned:
  "list_all (scanned s) (convert_events s i)
   \<and> (convert_events s i = [] \<or> \<not> is_value_read (hd (convert_events s i)))"
proof (induction s i rule: run_induct)
  case (End s i)
  then show ?case by (simp add: convert_events_end)
next
  case (Sentinel s i)
  then show ?case by (simp add: convert_events_sentinel)
next
  case (Zero s i i1)
  then show ?case by (simp add: convert_events_zero)
next
  case (Group s i c i1 p i2)
  then show ?case using value_events_scanned [of s c 0 i1]
    by (simp add: convert_events_group)
qed

lemma convert_events_chained:
  "i \<le> length s \<Longrightarrow> chained i (convert_events s i) (length s)"
proof (induction s i rule: run_induct)
  case (End s i)
  then show ?case by (simp add: convert_events_end)
next
  case (Sentinel s i)
  then show ?case by (simp add: convert_events_sentinel)
next
  case (Zero s i i1)
  have "i1 \<le> length s" using parse_element_le [of i s] Zero by simp
  with Zero show ?case by (simp add: convert_events_zero)
next
  case (Group s i c i1 p i2)
  have i1: "i1 \<le> length s" using parse_element_le [of i s] Group by simp
  then have "i2 \<le> length s" using value_loop_le [of i1 s c 0 0] Group by simp
  then have "chained i2 (convert_events s i2) (length s)" using Group by simp
  moreover have "chained i1 (value_events s c 0 i1) i2"
    using value_loop_events [of s c 0 i1 0] Group by simp
  ultimately have "chained i1 (value_events s c 0 i1 @ convert_events s i2) (length s)"
    by (rule chained_append [rotated])
  then show ?case using Group by (simp add: convert_events_group)
qed

lemma convert_loop_cursor: "i \<le> length s \<Longrightarrow> snd (convert_loop s i r) = length s"
proof (induction s i arbitrary: r rule: run_induct)
  case (End s i)
  then show ?case by (simp add: convert_loop_end)
next
  case (Sentinel s i)
  then show ?case by (simp add: convert_loop_sentinel)
next
  case (Zero s i i1)
  have "i1 \<le> length s" using parse_element_le [of i s] Zero by simp
  with Zero show ?case by (simp add: convert_loop_zero)
next
  case (Group s i c i1 p i2)
  have i1: "i1 \<le> length s" using parse_element_le [of i s] Group by simp
  then have "i2 \<le> length s" using value_loop_le [of i1 s c 0 0] Group by simp
  with Group show ?case by (simp add: convert_loop_group)
qed

lemma convert_loop_packages:
  "fst (convert_loop s i r) = r @ packages_of (convert_events s i)"
proof (induction s i arbitrary: r rule: run_induct)
  case (End s i)
  then show ?case by (simp add: convert_loop_end convert_events_end)
next
  case (Sentinel s i)
  then show ?case by (simp add: convert_loop_sentinel convert_events_sentinel)
next
  case (Zero s i i1)
  have "takeWhile is_value_read (convert_events s i1) = []"
    using convert_events_scanned [of s i1]
    by (cases "convert_events s i1") auto
  with Zero show ?case by (simp add: convert_loop_zero convert_events_zero)
next
  case (Group s i c i1 p i2)
  let ?vs = "value_events s c 0 i1"
  have vals: "list_all is_value_read ?vs" using value_events_scanned [of s c 0 i1] by simp
  have "takeWhile is_value_read (?vs @ convert_events s i2) = ?vs"
    using vals convert_events_scanned [of s i2] by (intro takeWhile_values) simp_all
  moreover have "packages_of (?vs @ convert_events s i2) = packages_of (convert_events s i2)"
    using vals by (rule packages_of_values)
  moreover have "p = sum_list (map element_value ?vs)"
    using value_loop_events [of s c 0 i1 0] Group by simp
  ultimately show ?case using Group
    by (simp add: convert_loop_group convert_events_group)
qed

lemma value_not_count: "is_value_read e \<Longrightarrow> \<not> is_count_read e"
  by (cases e) simp_all

lemma count_reads_bounded:
  "length (filter is_count_read (convert_events s i)) \<le> length s - i"
proof (induction s i rule: run_induct)
  case (End s i)
  then show ?case by (simp add: convert_events_end)
next
  case (Sentinel s i)
  then show ?case by (simp add: convert_events_sentinel)
next
  case (Zero s i i1)
  have "i < i1" using parse_element_advances [of i s] Zero by simp
  with Zero show ?case by (simp add: convert_events_zero)
next
  case (Group s i c i1 p i2)
  have "i < i1" using parse_element_advances [of i s] Group by simp
  moreover have "i1 \<le> i2" using value_loop_ge [of i1 s c 0 0] Group by simp
  moreover have "filter is_count_read (value_events s c 0 i1) = []"
    using value_events_scanned [of s c 0 i1]
    by (auto simp: filter_empty_conv list_all_iff dest: value_not_count)
  ultimately show ?case using Group by (simp add: convert_events_group)
qed

lemma scanned_step:
  "scanned s e \<Longrightarrow> before e < after e \<and> after e \<le> length s"
proof (cases e)
  case (SentinelStep i)
  assume "scanned s e"
  with SentinelStep show ?thesis by simp
next
  case (CountRead i j c)
  assume "scanned s e"
  with CountRead show ?thesis
    using parse_element_advances [of i s] parse_element_le [of i s] by simp
next
  case (ValueRead i j v)
  assume "scanned s e"
  with ValueRead show ?thesis
    using parse_element_advances [of i s] parse_element_le [of i s] by simp
qed

lemma chained_sorted:
  "chained i evs j \<Longrightarrow> \<forall>e \<in> set evs. before e \<le> after e \<Longrightarrow>
   sorted (i # map after evs) \<and> i \<le> j"
proof (induction evs arbitrary: i)
  case Nil
  then show ?case by simp
next
  case (Cons e es)
  then have ch: "chained (after e) es j" and b: "before e = i" and le: "i \<le> after e"
    by auto
  have ih: "sorted (after e # map after es) \<and> after e \<le> j"
    using Cons.IH [OF ch] Cons.prems(2) by simp
  then have "\<forall>x \<in> set (map after es). after e \<le> x" by simp
  with le have "\<forall>x \<in> set (after e # map after es). i \<le> x" by auto
  with ih le show ?case by (simp del: set_map)
qed

lemma parse_element_count_pos:
  assumes "over_alphabet s" and "i < length s" and "s ! i \<noteq> CHR ''_''"
  shows "1 \<le> fst (parse_element s i)"
proof (cases "s ! i = CHR ''z''")
  case False
  have "in_alphabet (s ! i)" using assms by (simp add: over_alphabet_nth)
  then have "1 \<le> val (s ! i)" using assms(3) by (rule val_pos)
  with False assms(2) show ?thesis by (simp add: parse_element_def)
next
  case True
  have k: "0 < z_run s i" using assms(2) True by (rule z_run_pos)
  show ?thesis
  proof (cases "i + z_run s i < length s")
    case False
    with True assms(2) k show ?thesis by (simp add: parse_element_z)
  next
    case run: True
    then have "in_alphabet (s ! (i + z_run s i))" using assms(1) by (simp add: over_alphabet_nth)
    then have "0 \<le> val (s ! (i + z_run s i))" using val_range by blast
    with True assms(2) k run show ?thesis by (simp add: parse_element_z)
  qed
qed

lemma parse_element_nonneg:
  assumes "over_alphabet s"
  shows "0 \<le> fst (parse_element s i)"
proof (cases "i < length s \<and> s ! i \<noteq> CHR ''_''")
  case True
  then show ?thesis using parse_element_count_pos [OF assms, of i] by simp
next
  case False
  then show ?thesis by (auto simp: parse_element_def val_def)
qed

lemma scanned_value:
  "over_alphabet s \<Longrightarrow> scanned s e \<Longrightarrow>
   0 \<le> element_value e \<and> (is_count_read e \<longrightarrow> 1 \<le> element_value e)"
proof (cases e)
  case (SentinelStep i)
  then show ?thesis by simp
next
  case (CountRead i j c)
  assume "over_alphabet s" and "scanned s e"
  with CountRead show ?thesis using parse_element_count_pos [of s i] by simp
next
  case (ValueRead i j v)
  assume "over_alphabet s" and "scanned s e"
  with ValueRead show ?thesis using parse_element_nonneg [of s i] by simp
qed

lemma packages_of_nonneg:
  "\<forall>e \<in> set evs. 0 \<le> element_value e \<Longrightarrow> \<forall>x \<in> set (packages_of evs). 0 \<le> x"
proof (induction evs rule: packages_of.induct)
  case 1
  show ?case by simp
next
  case (2 i j v es)
  then show ?case by simp
next
  case (3 k es)
  then show ?case by simp
next
  case (4 i j c es)
  have "0 \<le> sum_list (map element_value (takeWhile is_value_read es))"
    using "4.prems" by (intro sum_list_nonneg) (auto dest: set_takeWhileD)
  with 4 show ?case by simp
qed

lemma length_packages_of:
  "length (packages_of evs) = length (filter (\<lambda>e. \<not> is_value_read e) evs)"
  by (induction evs rule: packages_of.induct) simp_all

subsection \<open>Non-negative packages\<close>

text \<open>
  Claim C4. For every string over the alphabet, \<^verbatim>\<open>convert(s)\<close> returns a sequence of
  non-negative integers, one for each package of the run in the order met: the
  sequence is rebuilt from the trace, one entry for each sentinel shortcut and each
  count read.
\<close>

theorem convert_nonnegative:
  "over_alphabet s \<Longrightarrow>
     (\<forall>x \<in> set (convert s). 0 \<le> x)
     \<and> convert s = packages_of (convert_events s 0)
     \<and> length (convert s) = length (filter (\<lambda>e. \<not> is_value_read e) (convert_events s 0))"
proof -
  assume a: "over_alphabet s"
  have c: "convert s = packages_of (convert_events s 0)"
    using convert_loop_packages [of s 0 "[]"] a by (simp add: convert_def normalise_alphabet)
  have "\<forall>e \<in> set (convert_events s 0). 0 \<le> element_value e"
    using convert_events_scanned [of s 0] scanned_value [OF a]
    by (simp add: list_all_iff)
  then have "\<forall>x \<in> set (packages_of (convert_events s 0)). 0 \<le> x"
    by (rule packages_of_nonneg)
  with c show ?thesis by (simp add: length_packages_of)
qed

theorem convert_nonnegative_witness:
  "over_alphabet ''azzb_zzzcab'' \<and> convert ''azzb_zzzcab'' = [54, 0, 3]
   \<and> (54::int) \<in> set (convert ''azzb_zzzcab'') \<and> (0::int) \<le> 54
   \<and> convert ''azzb_zzzcab'' = packages_of (convert_events ''azzb_zzzcab'' 0)"
proof -
  have h: "over_alphabet ''azzb_zzzcab''" by code_simp
  have e: "convert ''azzb_zzzcab'' = [54, 0, 3]" by code_simp
  have r: "convert ''azzb_zzzcab'' = packages_of (convert_events ''azzb_zzzcab'' 0)"
    using convert_nonnegative [OF h] by blast
  have m: "(54::int) \<in> set (convert ''azzb_zzzcab'')" by (simp add: e)
  from h e r m show ?thesis by simp
qed

subsection \<open>Termination and the number of count reads\<close>

text \<open>
  Claim C5. For every input string the decoder loop of \<^verbatim>\<open>convert\<close> terminates
  (\<^const>\<open>convert_loop\<close> is a total function, by the measure \<open>length s - i\<close>) and is left
  with the cursor equal to the length of the stream; the run makes at most
  \<open>length s\<close> count reads, and every count read is a call of the scanner inside the
  stream that consumes at least one character.
\<close>

theorem convert_loop_terminates:
  "snd (convert_loop (lower (strip s)) 0 []) = length (lower (strip s))
   \<and> convert s = fst (convert_loop (lower (strip s)) 0 [])
   \<and> length (filter is_count_read (convert_events (lower (strip s)) 0))
        \<le> length (lower (strip s))
   \<and> (\<forall>e \<in> set (convert_events (lower (strip s)) 0).
          is_count_read e \<longrightarrow> scanned (lower (strip s)) e \<and> before e + 1 \<le> after e)"
proof -
  let ?t = "lower (strip s)"
  have "snd (convert_loop ?t 0 []) = length ?t" by (simp add: convert_loop_cursor)
  moreover have "length (filter is_count_read (convert_events ?t 0)) \<le> length ?t"
    using count_reads_bounded [of ?t 0] by simp
  moreover have "\<forall>e \<in> set (convert_events ?t 0). scanned ?t e \<and> before e + 1 \<le> after e"
  proof
    fix e assume "e \<in> set (convert_events ?t 0)"
    then have "scanned ?t e" using convert_events_scanned [of ?t 0] by (simp add: list_all_iff)
    then show "scanned ?t e \<and> before e + 1 \<le> after e" using scanned_step [of ?t e] by simp
  qed
  ultimately show ?thesis by (simp add: convert_def)
qed

theorem convert_loop_terminates_witness:
  "snd (convert_loop ''azzb_zzzcab'' 0 []) = 11
   \<and> CountRead 5 9 81 \<in> set (convert_events ''azzb_zzzcab'' 0)
   \<and> parse_element ''azzb_zzzcab'' 5 = (81, 9)
   \<and> length (filter is_count_read (convert_events ''azzb_zzzcab'' 0)) \<le> 11"
proof -
  have n: "lower (strip ''azzb_zzzcab'') = ''azzb_zzzcab''" by code_simp
  have ev: "convert_events ''azzb_zzzcab'' 0 =
      [CountRead 0 1 1, ValueRead 1 4 54, SentinelStep 4, CountRead 5 9 81,
       ValueRead 9 10 1, ValueRead 10 11 2]" by code_simp
  from convert_loop_terminates [of "''azzb_zzzcab''"] show ?thesis
    unfolding n by (simp add: ev)
qed

subsection \<open>The cursor is monotone and bounded\<close>

text \<open>
  Claim C6. For every string \<open>s\<close> and cursor \<open>i \<le> length s\<close>, the cursor returned by
  \<^verbatim>\<open>_parse_element(s, i)\<close> is at least \<open>i\<close> and at most \<open>length s\<close>. Across a whole
  run of \<^verbatim>\<open>convert\<close> every step starts where the one before it ended, no step moves
  the cursor back or past the end, so the cursor values are sorted, and the run ends at
  the length of the stream. The stream is a parameter that every call passes on
  unchanged: nothing in the model writes to it.
\<close>

theorem cursor_monotone:
  "(i \<le> length s \<longrightarrow> i \<le> snd (parse_element s i) \<and> snd (parse_element s i) \<le> length s)
   \<and> chained 0 (convert_events (lower (strip u)) 0) (length (lower (strip u)))
   \<and> (\<forall>e \<in> set (convert_events (lower (strip u)) 0).
          before e \<le> after e \<and> after e \<le> length (lower (strip u)))
   \<and> sorted (0 # map after (convert_events (lower (strip u)) 0))
   \<and> snd (convert_loop (lower (strip u)) 0 []) = length (lower (strip u))"
proof -
  let ?t = "lower (strip u)"
  have step: "\<forall>e \<in> set (convert_events ?t 0). before e \<le> after e \<and> after e \<le> length ?t"
  proof
    fix e assume "e \<in> set (convert_events ?t 0)"
    then have "scanned ?t e" using convert_events_scanned [of ?t 0] by (simp add: list_all_iff)
    then show "before e \<le> after e \<and> after e \<le> length ?t"
      using scanned_step [of ?t e] by simp
  qed
  have ch: "chained 0 (convert_events ?t 0) (length ?t)"
    by (rule convert_events_chained) simp
  have "sorted (0 # map after (convert_events ?t 0))"
    using chained_sorted [OF ch] step by blast
  moreover have "snd (convert_loop ?t 0 []) = length ?t" by (simp add: convert_loop_cursor)
  ultimately show ?thesis
    using step ch parse_element_ge [of i s] parse_element_le [of i s] by blast
qed

theorem cursor_monotone_witness:
  "(2::nat) \<le> length ''azzb'' \<and> snd (parse_element ''azzb'' 2) = 4
   \<and> ValueRead 1 4 54 \<in> set (convert_events ''azzb'' 0)
   \<and> chained 0 (convert_events ''azzb'' 0) 4
   \<and> sorted (0 # map after (convert_events ''azzb'' 0))"
proof -
  have n: "lower (strip ''azzb'') = ''azzb''" by code_simp
  have ev: "convert_events ''azzb'' 0 = [CountRead 0 1 1, ValueRead 1 4 54]" by code_simp
  have pe: "parse_element ''azzb'' 2 = (28, 4)" by code_simp
  from cursor_monotone [of 2 "''azzb''" "''azzb''"] show ?thesis
    unfolding n by (simp add: ev pe)
qed

subsection \<open>The zero-count branch\<close>

text \<open>
  Claim C9. For every string over the alphabet the zero-count branch of \<^verbatim>\<open>convert\<close>
  is never taken: where the loop reads a count the character is not the sentinel, so
  the count is at least 1, and so is the count of every count read of the run. A
  character outside the alphabet can take the branch: the one with code point 96 is
  read as the count 0.
\<close>

theorem zero_count_unreachable:
  "over_alphabet s \<Longrightarrow>
     (i < length s \<and> s ! i \<noteq> CHR ''_'' \<longrightarrow> 1 \<le> fst (parse_element s i))
     \<and> (\<forall>e \<in> set (convert_events (lower (strip s)) 0).
           is_count_read e \<longrightarrow> 1 \<le> element_value e)
     \<and> convert_events (lower (strip [CHR 0x60])) 0 = [CountRead 0 1 0]"
proof -
  assume a: "over_alphabet s"
  have "\<forall>e \<in> set (convert_events s 0). is_count_read e \<longrightarrow> 1 \<le> element_value e"
    using convert_events_scanned [of s 0] scanned_value [OF a]
    by (simp add: list_all_iff)
  moreover have "convert_events (lower (strip [CHR 0x60])) 0 = [CountRead 0 1 0]"
    by code_simp
  ultimately show ?thesis
    using parse_element_count_pos [OF a, of i] a by (simp add: normalise_alphabet)
qed

theorem zero_count_unreachable_witness:
  "over_alphabet ''azzb'' \<and> ''azzb'' ! 1 \<noteq> CHR ''_'' \<and> (1::int) \<le> fst (parse_element ''azzb'' 1)
   \<and> CountRead 0 1 1 \<in> set (convert_events ''azzb'' 0)
   \<and> (1::int) \<le> element_value (CountRead 0 1 1)"
proof -
  have h: "over_alphabet ''azzb''" by code_simp
  have n: "lower (strip ''azzb'') = ''azzb''" by code_simp
  have ev: "convert_events ''azzb'' 0 = [CountRead 0 1 1, ValueRead 1 4 54]" by code_simp
  from zero_count_unreachable [OF h, of 1] h show ?thesis
    unfolding n by (simp add: ev)
qed

subsection \<open>Normalisation and case\<close>

lemma lower_char_idem: "lower_char (lower_char c) = lower_char c"
  by (auto simp: lower_char_def Let_def)

lemma isspace_lower: "isspace (lower_char c) = isspace c"
  by (auto simp: lower_char_def Let_def isspace_def)

lemma lower_upper: "lower_char (upper_char c) = lower_char c"
  by (auto simp: lower_char_def upper_char_def Let_def)

lemma isspace_upper: "isspace (upper_char c) = isspace c"
  by (auto simp: upper_char_def Let_def isspace_def)

lemma strip_map:
  assumes "\<And>c. isspace (f c) = isspace c"
  shows "strip (map f s) = map f (strip s)"
proof -
  have "isspace \<circ> f = isspace" using assms by (simp add: fun_eq_iff)
  then show ?thesis by (simp add: strip_def dropWhile_map rev_map)
qed

lemma last_dropWhile_keep: "dropWhile P xs \<noteq> [] \<Longrightarrow> last (dropWhile P xs) = last xs"
  by (induction xs) (auto split: if_splits)

lemma strip_fixed:
  "s = [] \<or> (\<not> isspace (hd s) \<and> \<not> isspace (last s)) \<Longrightarrow> strip s = s"
proof (cases "s = []")
  case True
  then show ?thesis by (simp add: strip_def)
next
  case False
  assume "s = [] \<or> (\<not> isspace (hd s) \<and> \<not> isspace (last s))"
  with False have h: "\<not> isspace (hd s)" and l: "\<not> isspace (last s)" by auto
  have "dropWhile isspace s = s" using False h by (simp add: dropWhile_eq_self_iff)
  moreover have "dropWhile isspace (rev s) = rev s"
    using False l by (simp add: dropWhile_eq_self_iff hd_rev)
  ultimately show ?thesis by (simp add: strip_def)
qed

lemma strip_ends:
  "strip s = [] \<or> (\<not> isspace (hd (strip s)) \<and> \<not> isspace (last (strip s)))"
proof (cases "strip s = []")
  case True
  then show ?thesis by simp
next
  case False
  let ?a = "dropWhile isspace s"
  let ?c = "dropWhile isspace (rev ?a)"
  have s: "strip s = rev ?c" by (simp add: strip_def)
  with False have c: "?c \<noteq> []" by simp
  have a: "?a \<noteq> []"
  proof
    assume e: "?a = []"
    have "?c = []" unfolding e by simp
    with c show False by simp
  qed
  have "\<not> isspace (hd ?c)" using c by (rule hd_dropWhile)
  then have l: "\<not> isspace (last (strip s))" using c by (simp add: s last_rev)
  have "last ?c = last (rev ?a)" using c by (rule last_dropWhile_keep)
  also have "\<dots> = hd ?a" using a by (simp add: last_rev)
  finally have "hd (strip s) = hd ?a" using c by (simp add: s hd_rev)
  moreover have "\<not> isspace (hd ?a)" using a by (rule hd_dropWhile)
  ultimately show ?thesis using l by simp
qed

lemma strip_idem: "strip (strip s) = strip s"
  using strip_ends [of s] by (rule strip_fixed)

lemma normalise_idem: "lower (strip (lower (strip s))) = lower (strip s)"
proof -
  have "strip (lower (strip s)) = lower (strip (strip s))"
    unfolding lower_def by (rule strip_map) (rule isspace_lower)
  then show ?thesis by (simp add: strip_idem lower_def lower_char_idem)
qed

lemma normalise_upper: "lower (strip (upper s)) = lower (strip s)"
proof -
  have "strip (upper s) = upper (strip s)"
    unfolding upper_def by (rule strip_map) (rule isspace_upper)
  then show ?thesis by (simp add: lower_def upper_def lower_upper)
qed

lemma dropWhile_all: "list_all P xs \<Longrightarrow> dropWhile P xs = []"
  by (induction xs) simp_all

lemma dropWhile_all_append: "list_all P xs \<Longrightarrow> dropWhile P (xs @ ys) = dropWhile P ys"
  by (induction xs) simp_all

lemma strip_padded:
  assumes "list_all isspace l" and "list_all isspace r" and "\<forall>c \<in> set m. \<not> isspace c"
  shows "strip (l @ m @ r) = m"
proof -
  have l: "dropWhile isspace (l @ m @ r) = dropWhile isspace (m @ r)"
    using assms(1) by (rule dropWhile_all_append)
  show ?thesis
  proof (cases "m = []")
    case True
    have "dropWhile isspace r = []" using assms(2) by (rule dropWhile_all)
    then have d: "dropWhile isspace (l @ m @ r) = []" using l True by simp
    show ?thesis unfolding strip_def d using True by simp
  next
    case False
    then have "\<not> isspace (hd m)" and "\<not> isspace (last m)" using assms(3) by simp_all
    then have "dropWhile isspace (m @ r) = m @ r"
      and "dropWhile isspace (rev m) = rev m"
      using False by (simp_all add: dropWhile_eq_self_iff hd_rev)
    moreover have "list_all isspace (rev r)" using assms(2) by (simp add: list_all_iff)
    then have "dropWhile isspace (rev r @ rev m) = dropWhile isspace (rev m)"
      by (rule dropWhile_all_append)
    ultimately show ?thesis using l by (simp add: strip_def)
  qed
qed

text \<open>
  Claim C8. For every string made of a string over the alphabet with whitespace before
  and after it, \<^verbatim>\<open>convert(s)\<close> equals \<^verbatim>\<open>convert(s.upper())\<close>, and it equals
  \<^verbatim>\<open>convert\<close> of the string stripped and lower-cased, which here is the part
  between the whitespace; and for every string \<open>u\<close> at all, \<^verbatim>\<open>convert(u)\<close> equals
  \<^verbatim>\<open>convert\<close> of \<open>u\<close> stripped and lower-cased, because \<^verbatim>\<open>convert\<close> normalises its
  input itself and normalising twice changes nothing.
\<close>

theorem convert_case_insensitive:
  assumes "list_all isspace l" and "over_alphabet m" and "list_all isspace r"
  shows "convert (l @ m @ r) = convert (upper (l @ m @ r))
    \<and> convert (l @ m @ r) = convert (lower (strip (l @ m @ r)))
    \<and> convert (l @ m @ r) = convert m
    \<and> convert u = convert (lower (strip u))"
proof -
  have "\<forall>c \<in> set m. \<not> isspace c"
    using assms(2) by (simp add: over_alphabet_def list_all_iff alphabet_no_space)
  then have "strip (l @ m @ r) = m" using assms(1,3) by (intro strip_padded)
  then have "convert (l @ m @ r) = convert m"
    using assms(2) by (simp add: convert_def strip_alphabet)
  then show ?thesis by (simp add: convert_def normalise_idem normalise_upper)
qed

theorem convert_case_insensitive_witness:
  "list_all isspace '' '' \<and> over_alphabet ''ab'' \<and> upper '' ab '' = '' AB ''
   \<and> convert '' ab '' = convert (upper '' ab '') \<and> convert '' ab '' = convert ''ab''"
proof -
  have h1: "list_all isspace '' ''" by code_simp
  have h2: "over_alphabet ''ab''" by code_simp
  have u: "upper '' ab '' = '' AB ''" by code_simp
  have t: "convert ('' '' @ ''ab'' @ '' '') = convert (upper ('' '' @ ''ab'' @ '' ''))
      \<and> convert ('' '' @ ''ab'' @ '' '') = convert ''ab''"
    using convert_case_insensitive [OF h1 h2 h1, of "[]"] by blast
  have "convert '' ab '' = convert (upper '' ab '') \<and> convert '' ab '' = convert ''ab''"
    using t unfolding append.simps .
  with h1 h2 u show ?thesis by blast
qed

end
